theory Spec2Isabelle
  imports Main "HOL-Library.Sublist" "HOL-Library.Multiset"
begin

section \<open>Descendant records and the ordered collection\<close>

text \<open>
  A descendant record is the object \<^verbatim>\<open>{ ...rest, element, index }\<close> of the source.
  \<open>element\<close> is a DOM node compared by identity, or \<open>None\<close> for \<^verbatim>\<open>null\<close>; the type
  \<open>'e\<close> stands for node identities. \<open>index\<close> is the number stored in the record
  (the typedef of the source says \<^verbatim>\<open>number\<close>; every index the code writes is an integer).
  \<open>rest\<close> is the payload the caller attached, carried through unchanged.
\<close>

record ('e, 'p) descendant =
  element :: "'e option"
  index :: int
  rest :: 'p

subsection \<open>Array helpers of the host language\<close>

text \<open>
  \<^verbatim>\<open>Array.prototype.findIndex\<close>: scan from position 0 and return the first position whose
  entry satisfies the predicate, or \<open>-1\<close>.
\<close>

fun findIndexFrom :: "('a \<Rightarrow> bool) \<Rightarrow> nat \<Rightarrow> 'a list \<Rightarrow> int" where
  "findIndexFrom P k [] = - 1"
| "findIndexFrom P k (x # xs) = (if P x then int k else findIndexFrom P (Suc k) xs)"

definition findIndex :: "('a \<Rightarrow> bool) \<Rightarrow> 'a list \<Rightarrow> int" where
  "findIndex P xs = findIndexFrom P 0 xs"

text \<open>
  Reading \<^verbatim>\<open>xs[i]\<close> for an integer \<open>i\<close>: the entry, or \<^verbatim>\<open>undefined\<close> (\<open>None\<close>) out of
  range.
\<close>

definition js_nth :: "'a list \<Rightarrow> int \<Rightarrow> 'a option" where
  "js_nth xs i = (if 0 \<le> i \<and> i < int (length xs) then Some (xs ! nat i) else None)"

text \<open>
  The remainder operator \<^verbatim>\<open>%\<close> on integers: the result takes the sign of the dividend.
  It is only used with a positive divisor (the length of a non-empty array).
\<close>

definition js_rem :: "int \<Rightarrow> int \<Rightarrow> int" where
  "js_rem a n = sgn a * (\<bar>a\<bar> mod \<bar>n\<bar>)"

subsection \<open>The registry: registerDescendant and unregisterDescendant\<close>

text \<open>
  The final pass of \<^verbatim>\<open>registerDescendant\<close>,
  \<^verbatim>\<open>newItems.map((item, index) => ({ ...item, index }))\<close>.
\<close>

definition reindex :: "('e, 'p) descendant list \<Rightarrow> ('e, 'p) descendant list" where
  "reindex newItems = map (\<lambda>(i, item). item\<lparr>index := int i\<rparr>) (enumerate 0 newItems)"

text \<open>
  The predicate of the \<^verbatim>\<open>findIndex\<close> call in \<^verbatim>\<open>registerDescendant\<close>. The parameter
  \<open>cdp\<close> is the DOM's document-order test, supplied from outside:
  \<open>cdp a b\<close> is
  \<^verbatim>\<open>Boolean(a.compareDocumentPosition(b) & Node.DOCUMENT_POSITION_PRECEDING)\<close>,
  true when \<open>b\<close> precedes \<open>a\<close> in the document. The new element is never \<^verbatim>\<open>null\<close> here.
\<close>

definition newPrecedes :: "('e \<Rightarrow> 'e \<Rightarrow> bool) \<Rightarrow> 'e \<Rightarrow> ('e, 'p) descendant \<Rightarrow> bool" where
  "newPrecedes cdp el item = (case element item of None \<Rightarrow> False | Some ie \<Rightarrow> cdp ie el)"

text \<open>
  \<^verbatim>\<open>registerDescendant({ element, index: explicitIndex, ...rest })\<close>, as the function from
  the collection before the call to the collection after it (the updater passed to
  \<^verbatim>\<open>set\<close>). A \<^verbatim>\<open>null\<close> element returns before \<^verbatim>\<open>set\<close> is called. \<open>explicitIndex\<close> is
  \<open>None\<close> for \<^verbatim>\<open>null\<close> or \<^verbatim>\<open>undefined\<close>. \<^verbatim>\<open>Array.prototype.sort\<close> is stable, and so is
  \<^const>\<open>sort_key\<close>.
\<close>

definition registerDescendant ::
  "('e \<Rightarrow> 'e \<Rightarrow> bool) \<Rightarrow> 'e option \<Rightarrow> int option \<Rightarrow> 'p \<Rightarrow>
   ('e, 'p) descendant list \<Rightarrow> ('e, 'p) descendant list" where
  "registerDescendant cdp element' explicitIndex rest' items =
    (case element' of
       None \<Rightarrow> items
     | Some el \<Rightarrow>
        (case explicitIndex of
           Some ix \<Rightarrow>
             sort_key index (items @ [\<lparr>element = Some el, index = ix, rest = rest'\<rparr>])
         | None \<Rightarrow>
             reindex
               (if length items = 0 then [\<lparr>element = Some el, index = 0, rest = rest'\<rparr>]
                else if find (\<lambda>item. element item = Some el) items \<noteq> None then items
                else
                  let ix = findIndex (newPrecedes cdp el) items;
                      newItem = \<lparr>element = Some el, index = ix, rest = rest'\<rparr>
                  in if ix = - 1 then items @ [newItem]
                     else take (nat ix) items @ [newItem] @ drop (nat ix) items)))"

text \<open>\<^verbatim>\<open>unregisterDescendant(element)\<close>, again as the update of the collection.\<close>

definition unregisterDescendant ::
  "'e option \<Rightarrow> ('e, 'p) descendant list \<Rightarrow> ('e, 'p) descendant list" where
  "unregisterDescendant element' items =
    (case element' of
       None \<Rightarrow> items
     | Some el \<Rightarrow> filter (\<lambda>item. Some el \<noteq> element item) items)"

text \<open>
  Sequences of registry calls. The rendering substrate applies the queued updaters one
  after the other, each to the collection the previous one returned; a provider starts
  with the empty collection (\<^verbatim>\<open>useDescendantsInit\<close>).
\<close>

datatype ('e, 'p) operation =
    Register "'e option" "int option" 'p
  | Unregister "'e option"

fun applyOperation ::
  "('e \<Rightarrow> 'e \<Rightarrow> bool) \<Rightarrow> ('e, 'p) descendant list \<Rightarrow> ('e, 'p) operation \<Rightarrow>
   ('e, 'p) descendant list" where
  "applyOperation cdp items (Register el ix r) = registerDescendant cdp el ix r items"
| "applyOperation cdp items (Unregister el) = unregisterDescendant el items"

definition runOperations ::
  "('e \<Rightarrow> 'e \<Rightarrow> bool) \<Rightarrow> ('e, 'p) operation list \<Rightarrow> ('e, 'p) descendant list" where
  "runOperations cdp ops = foldl (applyOperation cdp) [] ops"

text \<open>A call of \<^verbatim>\<open>registerDescendant\<close> that pins no index.\<close>

fun unpinnedRegister :: "('e, 'p) operation \<Rightarrow> bool" where
  "unpinnedRegister (Register el None r) = True"
| "unpinnedRegister _ = False"

text \<open>The invariant of the data model: \<^verbatim>\<open>collection[i].index === i\<close> for every \<open>i\<close>.\<close>

definition indexed :: "('e, 'p) descendant list \<Rightarrow> bool" where
  "indexed items = (map index items = map int [0..<length items])"

text \<open>
  The order the registry aims at. \<open>elementBefore cdp x y\<close>: both are nodes and \<open>x\<close>
  precedes \<open>y\<close> in the document; \<open>inDocumentOrder cdp items\<close>: every record's element
  precedes the elements of all records behind it.
\<close>

definition elementBefore :: "('e \<Rightarrow> 'e \<Rightarrow> bool) \<Rightarrow> 'e option \<Rightarrow> 'e option \<Rightarrow> bool" where
  "elementBefore cdp x y =
     (case x of None \<Rightarrow> False
      | Some a \<Rightarrow> (case y of None \<Rightarrow> False | Some b \<Rightarrow> cdp b a))"

definition inDocumentOrder :: "('e \<Rightarrow> 'e \<Rightarrow> bool) \<Rightarrow> ('e, 'p) descendant list \<Rightarrow> bool" where
  "inDocumentOrder cdp items = sorted_wrt (elementBefore cdp) (map element items)"

text \<open>Registering a list of elements with their payloads, one call each, no index pinned.\<close>

definition registerEach :: "('e \<times> 'p) list \<Rightarrow> ('e, 'p) operation list" where
  "registerEach eps = map (\<lambda>(el, p). Register (Some el) None p) eps"

text \<open>
  A document whose nodes are listed in visual order gives the comparator: \<open>b\<close> precedes
  \<open>a\<close> when \<open>b\<close> is met first.
\<close>

fun position :: "'e list \<Rightarrow> 'e \<Rightarrow> nat" where
  "position [] a = 0"
| "position (x # xs) a = (if x = a then 0 else Suc (position xs a))"

definition documentOrder :: "'e list \<Rightarrow> 'e \<Rightarrow> 'e \<Rightarrow> bool" where
  "documentOrder doc a b = (position doc b < position doc a)"

subsection \<open>A sample document\<close>

text \<open>
  Three nodes and the collection a provider holds after registering them in document
  order \<open>A\<close>, \<open>B\<close>, \<open>C\<close>, used to run the definitions on concrete inputs.
\<close>

datatype node = A | B | C

definition recA :: "(node, string) descendant" where
  "recA = \<lparr>element = Some A, index = 0, rest = ''first''\<rparr>"

definition recB :: "(node, string) descendant" where
  "recB = \<lparr>element = Some B, index = 1, rest = ''second''\<rparr>"

definition recC :: "(node, string) descendant" where
  "recC = \<lparr>element = Some C, index = 2, rest = ''third''\<rparr>"

definition threeItems :: "(node, string) descendant list" where
  "threeItems = [recA, recB, recC]"

section \<open>The navigator: handleKeyDown\<close>

datatype orientation = Vertical | Horizontal | Both

text \<open>The option \<^verbatim>\<open>key\<close>: \<^verbatim>\<open>'index'\<close> (the default) or \<^verbatim>\<open>'option'\<close>.\<close>

datatype select_key = KeyIndex | KeyOption

text \<open>
  The options of \<^verbatim>\<open>useDescendantKeyDown\<close> after destructuring, defaults filled in
  (\<^verbatim>\<open>key = 'index'\<close>, \<^verbatim>\<open>orientation = 'vertical'\<close>, \<^verbatim>\<open>rotate = true\<close>,
  \<^verbatim>\<open>rtl = false\<close>). \<open>currentIndex\<close> is \<open>None\<close> for \<^verbatim>\<open>null\<close> or \<^verbatim>\<open>undefined\<close>,
  \<open>filter_opt\<close> is \<open>None\<close> when no filter is given. The callback is the effect of the
  handler and appears in its result.
\<close>

record ('e, 'p) options =
  currentIndex :: "int option"
  filter_opt :: "(('e, 'p) descendant \<Rightarrow> bool) option"
  key_opt :: select_key
  orientation :: orientation
  rotate_opt :: bool
  rtl :: bool

record key_event =
  key :: string
  ctrlKey :: bool

datatype js_error = TypeError

text \<open>What the callback is called with.\<close>

datatype ('e, 'p) callback_arg =
    Record "('e, 'p) descendant"
  | IndexOf int
  | Undefined

text \<open>
  What a key press does: nothing at all, or \<^verbatim>\<open>event.preventDefault()\<close> followed by
  one call of the callback.
\<close>

datatype ('e, 'p) outcome =
    Ignored
  | Selected "('e, 'p) callback_arg"

definition getFirstOption :: "('e, 'p) descendant list \<Rightarrow> ('e, 'p) descendant option" where
  "getFirstOption selectableDescendants = js_nth selectableDescendants 0"

definition getLastOption :: "('e, 'p) descendant list \<Rightarrow> ('e, 'p) descendant option" where
  "getLastOption selectableDescendants =
     js_nth selectableDescendants (int (length selectableDescendants) - 1)"

text \<open>
  \<^verbatim>\<open>getNextOption\<close> and \<^verbatim>\<open>getPreviousOption\<close>, closures over \<open>index\<close>,
  \<open>selectableDescendants\<close>, \<open>selectableIndex\<close> and \<open>rotate\<close>. Reading \<^verbatim>\<open>.index\<close> of
  \<^verbatim>\<open>undefined\<close> throws; the array entry they return may be \<^verbatim>\<open>undefined\<close>.
\<close>

definition getNextOption ::
  "('e, 'p) descendant list \<Rightarrow> int \<Rightarrow> int \<Rightarrow> bool \<Rightarrow> js_error + ('e, 'p) descendant option" where
  "getNextOption selectableDescendants index' selectableIndex rotate' =
    (case getLastOption selectableDescendants of
       None \<Rightarrow> Inl TypeError
     | Some lastOption \<Rightarrow>
        (let atBottom = (index' = index lastOption)
         in Inr (if atBottom
                 then (if rotate' then getFirstOption selectableDescendants
                       else js_nth selectableDescendants selectableIndex)
                 else js_nth selectableDescendants
                        (js_rem (selectableIndex + 1) (int (length selectableDescendants))))))"

definition getPreviousOption ::
  "('e, 'p) descendant list \<Rightarrow> int \<Rightarrow> int \<Rightarrow> bool \<Rightarrow> js_error + ('e, 'p) descendant option" where
  "getPreviousOption selectableDescendants index' selectableIndex rotate' =
    (case getFirstOption selectableDescendants of
       None \<Rightarrow> Inl TypeError
     | Some firstOption \<Rightarrow>
        (let atTop = (index' = index firstOption)
         in Inr (if atTop
                 then (if rotate' then getLastOption selectableDescendants
                       else js_nth selectableDescendants selectableIndex)
                 else js_nth selectableDescendants
                        (js_rem (selectableIndex - 1 + int (length selectableDescendants))
                                (int (length selectableDescendants))))))"

text \<open>
  \<^verbatim>\<open>event.preventDefault(); callback(key === 'option' ? next : next[key])\<close>, given what
  the chosen getter returned. Reading a property of \<^verbatim>\<open>undefined\<close> throws.
\<close>

fun invoke ::
  "select_key \<Rightarrow> js_error + ('e, 'p) descendant option \<Rightarrow> js_error + ('e, 'p) outcome" where
  "invoke k (Inl err) = Inl err"
| "invoke KeyOption (Inr None) = Inr (Selected Undefined)"
| "invoke KeyOption (Inr (Some d)) = Inr (Selected (Record d))"
| "invoke KeyIndex (Inr None) = Inl TypeError"
| "invoke KeyIndex (Inr (Some d)) = Inr (Selected (IndexOf (index d)))"

definition navigationKeys :: "string list" where
  "navigationKeys =
     [''ArrowDown'', ''ArrowUp'', ''ArrowLeft'', ''ArrowRight'',
      ''PageUp'', ''PageDown'', ''Home'', ''End'']"

definition selectable ::
  "('e, 'p) descendant list \<Rightarrow> ('e, 'p) options \<Rightarrow> ('e, 'p) descendant list" where
  "selectable descendants opts =
     (case filter_opt opts of Some f \<Rightarrow> filter f descendants | None \<Rightarrow> descendants)"

definition handleKeyDown ::
  "('e, 'p) descendant list \<Rightarrow> ('e, 'p) options \<Rightarrow> key_event \<Rightarrow> js_error + ('e, 'p) outcome" where
  "handleKeyDown descendants opts event =
    (if key event \<notin> set navigationKeys then Inr Ignored
     else
       let index' = (case currentIndex opts of None \<Rightarrow> - 1 | Some i \<Rightarrow> i);
           selectableDescendants = selectable descendants opts
       in if length selectableDescendants = 0 then Inr Ignored
          else
            let selectableIndex =
                  findIndex (\<lambda>d. Some (index d) = currentIndex opts) selectableDescendants;
                next = getNextOption selectableDescendants index' selectableIndex (rotate_opt opts);
                prev = getPreviousOption selectableDescendants index' selectableIndex (rotate_opt opts);
                first = Inr (getFirstOption selectableDescendants);
                last' = Inr (getLastOption selectableDescendants);
                k = key_opt opts
            in if key event = ''ArrowDown'' then
                 (if orientation opts = Vertical \<or> orientation opts = Both
                  then invoke k next else Inr Ignored)
               else if key event = ''ArrowUp'' then
                 (if orientation opts = Vertical \<or> orientation opts = Both
                  then invoke k prev else Inr Ignored)
               else if key event = ''ArrowLeft'' then
                 (if orientation opts = Horizontal \<or> orientation opts = Both
                  then invoke k (if rtl opts then next else prev) else Inr Ignored)
               else if key event = ''ArrowRight'' then
                 (if orientation opts = Horizontal \<or> orientation opts = Both
                  then invoke k (if rtl opts then prev else next) else Inr Ignored)
               else if key event = ''PageUp'' then
                 invoke k (if ctrlKey event then prev else first)
               else if key event = ''Home'' then invoke k first
               else if key event = ''PageDown'' then
                 invoke k (if ctrlKey event then next else last')
               else invoke k last')"

text \<open>
  Sample options: the third record is current, no filter, the callback receives the
  whole record.
\<close>

definition sampleOptions :: "(node, string) options" where
  "sampleOptions =
     \<lparr>currentIndex = Some 2, filter_opt = None, key_opt = KeyOption,
      orientation = Vertical, rotate_opt = True, rtl = False\<rparr>"

text \<open>A filter that admits the records whose payload says so; no sample record does.\<close>

definition onlyEnabled :: "(node, string) descendant \<Rightarrow> bool" where
  "onlyEnabled d = (rest d = ''enabled'')"

definition arrowDown :: key_event where
  "arrowDown = \<lparr>key = ''ArrowDown'', ctrlKey = False\<rparr>"

definition arrowUp :: key_event where
  "arrowUp = \<lparr>key = ''ArrowUp'', ctrlKey = False\<rparr>"

definition arrowLeft :: key_event where
  "arrowLeft = \<lparr>key = ''ArrowLeft'', ctrlKey = False\<rparr>"

definition arrowRight :: key_event where
  "arrowRight = \<lparr>key = ''ArrowRight'', ctrlKey = False\<rparr>"

section \<open>Facts about the array helpers\<close>

lemma length_reindex: "length (reindex xs) = length xs"
  by (simp add: reindex_def)

lemma map_index_reindex: "map index (reindex xs) = map int [0..<length xs]"
proof -
  have "map index (reindex xs) = map (int \<circ> fst) (enumerate 0 xs)"
    by (simp add: reindex_def case_prod_unfold comp_def)
  also have "\<dots> = map int (map fst (enumerate 0 xs))"
    by (simp only: map_map)
  also have "\<dots> = map int [0..<length xs]"
    by (simp only: map_fst_enumerate add_0)
  finally show ?thesis .
qed

lemma map_element_reindex: "map element (reindex xs) = map element xs"
proof -
  have "map element (reindex xs) = map (element \<circ> snd) (enumerate 0 xs)"
    by (simp add: reindex_def case_prod_unfold comp_def)
  also have "\<dots> = map element (map snd (enumerate 0 xs))"
    by (simp only: map_map)
  also have "\<dots> = map element xs"
    by (simp only: map_snd_enumerate)
  finally show ?thesis .
qed

lemma map_rest_reindex: "map rest (reindex xs) = map rest xs"
proof -
  have "map rest (reindex xs) = map (rest \<circ> snd) (enumerate 0 xs)"
    by (simp add: reindex_def case_prod_unfold comp_def)
  also have "\<dots> = map rest (map snd (enumerate 0 xs))"
    by (simp only: map_map)
  also have "\<dots> = map rest xs"
    by (simp only: map_snd_enumerate)
  finally show ?thesis .
qed

lemma indexed_reindex: "indexed (reindex xs)"
  by (simp add: indexed_def map_index_reindex length_reindex)

text \<open>Two collections with the same elements, indices and payloads are the same.\<close>

lemma descendant_list_eqI:
  fixes xs ys :: "('e, 'p) descendant list"
  assumes "map element xs = map element ys"
    and "map index xs = map index ys"
    and "map rest xs = map rest ys"
  shows "xs = ys"
proof (rule nth_equalityI)
  show len: "length xs = length ys"
    using assms(1) by (rule map_eq_imp_length_eq)
  fix i assume i: "i < length xs"
  have "element (xs ! i) = element (ys ! i)"
    using assms(1) i len by (metis nth_map)
  moreover have "index (xs ! i) = index (ys ! i)"
    using assms(2) i len by (metis nth_map)
  moreover have "rest (xs ! i) = rest (ys ! i)"
    using assms(3) i len by (metis nth_map)
  ultimately show "xs ! i = ys ! i"
    by simp
qed

lemma reindex_indexed: "indexed xs \<Longrightarrow> reindex xs = xs"
  by (rule descendant_list_eqI)
     (simp_all add: map_element_reindex map_rest_reindex map_index_reindex indexed_def)

lemma indexed_nth: "indexed xs \<longleftrightarrow> (\<forall>i<length xs. index (xs ! i) = int i)"
proof
  assume "indexed xs"
  then show "\<forall>i<length xs. index (xs ! i) = int i"
    unfolding indexed_def by (metis add_0 length_map nth_map nth_upt)
next
  assume h: "\<forall>i<length xs. index (xs ! i) = int i"
  show "indexed xs"
    unfolding indexed_def by (rule nth_equalityI) (simp_all add: h)
qed

lemma findIndexFrom_none: "\<forall>x\<in>set xs. \<not> P x \<Longrightarrow> findIndexFrom P k xs = - 1"
  by (induction xs arbitrary: k) simp_all

lemma findIndexFrom_some:
  "\<exists>x\<in>set xs. P x \<Longrightarrow> findIndexFrom P k xs = int (k + length (takeWhile (Not \<circ> P) xs))"
proof (induction xs arbitrary: k)
  case Nil
  then show ?case by simp
next
  case (Cons a xs)
  show ?case
  proof (cases "P a")
    case True
    then show ?thesis by simp
  next
    case False
    with Cons.prems have "\<exists>x\<in>set xs. P x" by auto
    from Cons.IH [OF this, of "Suc k"] False show ?thesis by simp
  qed
qed

lemma findIndex_none: "\<forall>x\<in>set xs. \<not> P x \<Longrightarrow> findIndex P xs = - 1"
  by (simp add: findIndex_def findIndexFrom_none)

lemma findIndex_some:
  "\<exists>x\<in>set xs. P x \<Longrightarrow> findIndex P xs = int (length (takeWhile (Not \<circ> P) xs))"
  by (simp add: findIndex_def findIndexFrom_some)

lemma count_list_filter: "count_list (filter P xs) x = (if P x then count_list xs x else 0)"
  by (induction xs) auto

section \<open>Abnormal inputs\<close>

text \<open>
  Claim C9. The abnormal inputs are no-ops, none raises: \<^verbatim>\<open>registerDescendant\<close> with a
  \<^verbatim>\<open>null\<close> element returns the collection as it was; \<^verbatim>\<open>unregisterDescendant\<close> with a
  \<^verbatim>\<open>null\<close> element, or with an element no record holds, returns the collection as it
  was; a key press whose selectable subset is empty, or whose key is none of the eight
  navigation keys, calls neither \<^verbatim>\<open>preventDefault\<close> nor the callback.
\<close>

theorem abnormal_inputs_are_noops:
  "registerDescendant cdp None explicitIndex r items = items
   \<and> unregisterDescendant None items = items
   \<and> ((\<forall>d\<in>set items. element d \<noteq> Some e) \<longrightarrow> unregisterDescendant (Some e) items = items)
   \<and> (selectable descendants opts = [] \<longrightarrow> handleKeyDown descendants opts event = Inr Ignored)
   \<and> (key event \<notin> set navigationKeys \<longrightarrow> handleKeyDown descendants opts event = Inr Ignored)"
proof (intro conjI impI)
  show "registerDescendant cdp None explicitIndex r items = items"
    by (simp add: registerDescendant_def)
  show "unregisterDescendant None items = items"
    by (simp add: unregisterDescendant_def)
  show "unregisterDescendant (Some e) items = items" if "\<forall>d\<in>set items. element d \<noteq> Some e"
    using that by (auto simp: unregisterDescendant_def intro!: filter_True)
  show "handleKeyDown descendants opts event = Inr Ignored" if "selectable descendants opts = []"
    using that by (simp add: handleKeyDown_def Let_def)
  show "handleKeyDown descendants opts event = Inr Ignored" if "key event \<notin> set navigationKeys"
    using that by (simp add: handleKeyDown_def)
qed

theorem abnormal_inputs_are_noops_witness:
  "element recA \<noteq> Some B
   \<and> unregisterDescendant (Some B) [recA] = [recA]
   \<and> selectable threeItems (sampleOptions\<lparr>filter_opt := Some onlyEnabled\<rparr>) = []
   \<and> handleKeyDown threeItems (sampleOptions\<lparr>filter_opt := Some onlyEnabled\<rparr>) arrowDown
       = Inr Ignored
   \<and> key \<lparr>key = ''Tab'', ctrlKey = False\<rparr> \<notin> set navigationKeys
   \<and> handleKeyDown threeItems sampleOptions \<lparr>key = ''Tab'', ctrlKey = False\<rparr> = Inr Ignored"
  using abnormal_inputs_are_noops
          [where items = "[recA]" and e = B and descendants = threeItems
             and opts = "sampleOptions\<lparr>filter_opt := Some onlyEnabled\<rparr>"
             and event = arrowDown]
        abnormal_inputs_are_noops
          [where items = "[recA]" and e = B and descendants = threeItems
             and opts = sampleOptions
             and event = "\<lparr>key = ''Tab'', ctrlKey = False\<rparr>"]
  by (simp add: selectable_def navigationKeys_def threeItems_def recA_def recB_def recC_def
        sampleOptions_def onlyEnabled_def)

section \<open>What unregisterDescendant leaves alone\<close>

text \<open>
  Claim C10. \<^verbatim>\<open>unregisterDescendant\<close> returns a subsequence of the collection (the
  records that stay are the old records, unchanged and in their old order); every record
  whose element is not the given one stays, as often as it occurred (every record, when
  the given element is \<^verbatim>\<open>null\<close>); and no record holding the given element is left.
\<close>

theorem unregister_frame:
  "subseq (unregisterDescendant el items) items
   \<and> (\<forall>d\<in>set items. el = None \<or> element d \<noteq> el \<longrightarrow>
         count_list (unregisterDescendant el items) d = count_list items d)
   \<and> (\<forall>d\<in>set (unregisterDescendant (Some e) items). element d \<noteq> Some e)"
  by (auto simp: unregisterDescendant_def count_list_filter split: option.splits)

theorem unregister_frame_witness:
  "subseq (unregisterDescendant (Some B) threeItems) threeItems
   \<and> recC \<in> set threeItems
   \<and> element recC \<noteq> Some B
   \<and> count_list (unregisterDescendant (Some B) threeItems) recC = count_list threeItems recC
   \<and> recA \<in> set (unregisterDescendant (Some B) threeItems)
   \<and> element recA \<noteq> Some B
   \<and> unregisterDescendant (Some B) threeItems = [recA, recC]"
  using unregister_frame [where el = "Some B" and e = B and items = threeItems]
  by (simp add: unregisterDescendant_def threeItems_def recA_def recB_def recC_def)

section \<open>The index invariant\<close>

lemma indexed_register_unpinned: "indexed (registerDescendant cdp (Some e) None p items)"
  by (simp add: registerDescendant_def indexed_reindex)

lemma indexed_register_unpinned_any:
  "indexed items \<Longrightarrow> indexed (registerDescendant cdp el None p items)"
  by (cases el) (simp_all add: registerDescendant_def indexed_reindex)

lemma indexed_foldl_unpinned:
  "indexed items \<Longrightarrow> \<forall>op\<in>set ops. unpinnedRegister op \<Longrightarrow>
   indexed (foldl (applyOperation cdp) items ops)"
proof (induction ops arbitrary: items)
  case Nil
  then show ?case by simp
next
  case (Cons op ops)
  from Cons.prems(2) have "unpinnedRegister op" by simp
  then obtain el r where op: "op = Register el None r"
    by (cases op rule: unpinnedRegister.cases) simp_all
  have "indexed (applyOperation cdp items op)"
    using Cons.prems(1) by (simp add: op indexed_register_unpinned_any)
  then show ?case
    using Cons.IH Cons.prems(2) by simp
qed

text \<open>
  Claim C1, as the code has it. Only \<^verbatim>\<open>registerDescendant\<close> without an explicit index
  runs the re-index pass. After any sequence of registry calls, a further call of
  \<^verbatim>\<open>registerDescendant\<close> with an element and no explicit index leaves
  \<^verbatim>\<open>collection[i].index === i\<close> for every \<open>i\<close>; and in a sequence made of such calls
  only (a \<^verbatim>\<open>null\<close> element included), starting from the empty collection, the invariant
  holds after each call.
\<close>

theorem index_invariant_after_unpinned_register:
  "indexed (runOperations cdp (ops @ [Register (Some e) None r]))
   \<and> ((\<forall>op\<in>set ops. unpinnedRegister op) \<longrightarrow>
        (\<forall>n\<le>length ops. indexed (runOperations cdp (take n ops))))"
proof (intro conjI impI allI)
  show "indexed (runOperations cdp (ops @ [Register (Some e) None r]))"
    by (simp add: runOperations_def indexed_register_unpinned)
next
  fix n
  assume h: "\<forall>op\<in>set ops. unpinnedRegister op"
  have "\<forall>op\<in>set (take n ops). unpinnedRegister op"
    using h by (meson in_set_takeD)
  moreover have "indexed ([] :: ('a, 'b) descendant list)"
    by (simp add: indexed_def)
  ultimately show "indexed (runOperations cdp (take n ops))"
    unfolding runOperations_def by (rule indexed_foldl_unpinned [rotated])
qed

theorem index_invariant_after_unpinned_register_witness:
  "unpinnedRegister (Register (Some B) None ''second'')
   \<and> unpinnedRegister (Register (Some A) None ''first'')
   \<and> indexed (runOperations (documentOrder [A, B, C])
        (take 2 [Register (Some B) None ''second'', Register (Some A) None ''first'']))
   \<and> indexed (runOperations (documentOrder [A, B, C])
        ([Register (Some B) None ''second'', Register (Some A) None ''first'']
         @ [Register (Some C) None ''third'']))
   \<and> runOperations (documentOrder [A, B, C])
        ([Register (Some B) None ''second'', Register (Some A) None ''first'']
         @ [Register (Some C) None ''third'']) = threeItems"
proof -
  have h: "\<forall>op\<in>set [Register (Some B) None ''second'', Register (Some A) None ''first''].
             unpinnedRegister op"
    by simp
  have "2 \<le> length [Register (Some B) None ''second'', Register (Some A) None ''first'']"
    by simp
  with h index_invariant_after_unpinned_register
         [where cdp = "documentOrder [A, B, C]" and e = C and r = "''third''"
            and ops = "[Register (Some B) None ''second'', Register (Some A) None ''first'']"]
  have "indexed (runOperations (documentOrder [A, B, C])
          ([Register (Some B) None ''second'', Register (Some A) None ''first'']
           @ [Register (Some C) None ''third'']))
        \<and> indexed (runOperations (documentOrder [A, B, C])
            (take 2 [Register (Some B) None ''second'', Register (Some A) None ''first'']))"
    by blast
  moreover have "runOperations (documentOrder [A, B, C])
        ([Register (Some B) None ''second'', Register (Some A) None ''first'']
         @ [Register (Some C) None ''third'']) = threeItems"
    by (simp add: runOperations_def registerDescendant_def reindex_def findIndex_def
          newPrecedes_def documentOrder_def threeItems_def recA_def recB_def recC_def)
  ultimately show ?thesis
    by simp
qed

text \<open>
  The claim as stated fails: after registering \<open>A\<close> and \<open>B\<close> and unregistering \<open>A\<close>,
  the record of \<open>B\<close> is at position 0 with index 1.
\<close>

theorem index_invariant_counterexample:
  "runOperations (documentOrder [A, B, C])
     [Register (Some A) None ''first'', Register (Some B) None ''second'', Unregister (Some A)]
    = [recB]
   \<and> \<not> indexed [recB]"
  by (simp add: runOperations_def registerDescendant_def unregisterDescendant_def reindex_def
        findIndex_def newPrecedes_def documentOrder_def indexed_def recB_def)

section \<open>Removal\<close>

lemma filter_remove_nth:
  assumes k: "k < length xs"
    and hit: "\<not> P (xs ! k)"
    and others: "\<forall>j<length xs. j \<noteq> k \<longrightarrow> P (xs ! j)"
  shows "filter P xs = take k xs @ drop (Suc k) xs"
proof -
  have front: "\<forall>x\<in>set (take k xs). P x"
  proof
    fix x assume "x \<in> set (take k xs)"
    then obtain j where "j < length (take k xs)" "take k xs ! j = x"
      by (auto simp: in_set_conv_nth)
    then have "j < k" "j < length xs" "xs ! j = x"
      using k by simp_all
    then show "P x"
      using others by auto
  qed
  have rear: "\<forall>x\<in>set (drop (Suc k) xs). P x"
  proof
    fix x assume "x \<in> set (drop (Suc k) xs)"
    then obtain j where "j < length (drop (Suc k) xs)" "drop (Suc k) xs ! j = x"
      by (auto simp: in_set_conv_nth)
    then have "Suc k + j < length xs" "xs ! (Suc k + j) = x"
      by simp_all
    then show "P x"
      using others by (metis Suc_n_not_le_n add_Suc le_add1)
  qed
  have "xs = take k xs @ xs ! k # drop (Suc k) xs"
    using k by (rule id_take_nth_drop)
  then have "filter P xs = filter P (take k xs) @ filter P (xs ! k # drop (Suc k) xs)"
    by (metis filter_append)
  also have "\<dots> = take k xs @ drop (Suc k) xs"
    using front rear hit by (simp add: filter_id_conv)
  finally show ?thesis .
qed

text \<open>
  Claim C4, as the code has it. \<^verbatim>\<open>unregisterDescendant\<close> runs no re-index pass. On a
  collection with \<^verbatim>\<open>collection[i].index === i\<close> in which position \<open>k\<close> is the only one
  holding the element, it removes exactly the record at \<open>k\<close>; every other record is kept
  as it was, so a record before \<open>k\<close> still has its position as index and a record behind
  \<open>k\<close> moves one position down and keeps its old index, one more than its new position.
  Unless the removed record was the last one, the result breaks the invariant.
\<close>

theorem unregister_keeps_stale_indices:
  assumes "indexed items"
    and "k < length items"
    and "element (items ! k) = Some e"
    and "\<forall>j<length items. j \<noteq> k \<longrightarrow> element (items ! j) \<noteq> Some e"
  shows "unregisterDescendant (Some e) items = take k items @ drop (Suc k) items
         \<and> (\<forall>i<length items - 1.
               unregisterDescendant (Some e) items ! i = items ! (if i < k then i else Suc i)
               \<and> index (unregisterDescendant (Some e) items ! i) = (if i < k then int i else int i + 1))
         \<and> (Suc k < length items \<longrightarrow> \<not> indexed (unregisterDescendant (Some e) items))"
proof -
  let ?r = "unregisterDescendant (Some e) items"
  have r: "?r = take k items @ drop (Suc k) items"
    unfolding unregisterDescendant_def option.case
    by (rule filter_remove_nth) (use assms in auto)
  have nth: "?r ! i = items ! (if i < k then i else Suc i)" if "i < length items - 1" for i
    using that assms(2) by (auto simp: r nth_append min_def)
  have ix: "index (?r ! i) = (if i < k then int i else int i + 1)" if "i < length items - 1" for i
  proof -
    have "(if i < k then i else Suc i) < length items"
      using that by auto
    then have "index (items ! (if i < k then i else Suc i)) = int (if i < k then i else Suc i)"
      using assms(1) by (simp only: indexed_nth)
    then show ?thesis
      using nth [OF that] by simp
  qed
  have "\<not> indexed ?r" if "Suc k < length items"
  proof
    assume "indexed ?r"
    moreover have "k < length ?r"
      using that by (simp add: r)
    ultimately have "index (?r ! k) = int k"
      by (simp only: indexed_nth)
    moreover have "index (?r ! k) = int k + 1"
      using ix [of k] that by simp
    ultimately show False by simp
  qed
  with r nth ix show ?thesis by blast
qed

text \<open>
  The claim as stated fails: removing the middle one of three records leaves the third
  with index 2 at position 1.
\<close>

theorem unregister_middle_counterexample:
  "indexed threeItems
   \<and> unregisterDescendant (Some B) threeItems = [recA, recC]
   \<and> index recC = 2
   \<and> \<not> indexed (unregisterDescendant (Some B) threeItems)"
  by (simp add: unregisterDescendant_def threeItems_def recA_def recB_def recC_def indexed_def)


theorem unregister_keeps_stale_indices_witness:
  "indexed threeItems
   \<and> 1 < length threeItems
   \<and> element (threeItems ! 1) = Some B
   \<and> element (threeItems ! 0) \<noteq> Some B
   \<and> element (threeItems ! 2) \<noteq> Some B
   \<and> unregisterDescendant (Some B) threeItems = take 1 threeItems @ drop (Suc 1) threeItems
   \<and> unregisterDescendant (Some B) threeItems ! 1 = recC
   \<and> index (unregisterDescendant (Some B) threeItems ! 1) = 2
   \<and> \<not> indexed (unregisterDescendant (Some B) threeItems)"
proof -
  have h1: "indexed threeItems"
    by (simp add: indexed_def threeItems_def recA_def recB_def recC_def)
  have h2: "1 < length threeItems"
    by (simp add: threeItems_def)
  have h3: "element (threeItems ! 1) = Some B"
    by (simp add: threeItems_def recB_def)
  have h4: "\<forall>j<length threeItems. j \<noteq> 1 \<longrightarrow> element (threeItems ! j) \<noteq> Some B"
    by (simp add: threeItems_def recA_def recB_def recC_def nth_Cons' less_Suc_eq)
  show ?thesis
    using h1 h2 h3 unregister_keeps_stale_indices [OF h1 h2 h3 h4]
    by (simp add: threeItems_def recA_def recB_def recC_def indexed_def unregisterDescendant_def)
qed

section \<open>Registering an element that is already there\<close>

lemma register_present:
  assumes "\<exists>d\<in>set items. element d = Some e"
  shows "registerDescendant cdp (Some e) None p items = reindex items"
proof -
  from assms have "items \<noteq> []" by auto
  moreover from assms have "find (\<lambda>item. element item = Some e) items \<noteq> None"
    by (auto simp: find_None_iff)
  ultimately show ?thesis
    by (simp add: registerDescendant_def)
qed

text \<open>
  Claim C5, as the code has it. When a record already holds the element,
  \<^verbatim>\<open>registerDescendant\<close> without an explicit index adds nothing and drops the payload it
  was given, but the re-index pass still runs: length, order, elements and payloads are
  unchanged and every index field is overwritten with its position. The collection is
  returned as it was exactly when it satisfies \<^verbatim>\<open>collection[i].index === i\<close>; registering
  a second time changes nothing any more.
\<close>

theorem reregister_unpinned:
  assumes "\<exists>d\<in>set items. element d = Some e"
  shows "length (registerDescendant cdp (Some e) None p items) = length items
         \<and> map element (registerDescendant cdp (Some e) None p items) = map element items
         \<and> map rest (registerDescendant cdp (Some e) None p items) = map rest items
         \<and> indexed (registerDescendant cdp (Some e) None p items)
         \<and> (indexed items \<longrightarrow> registerDescendant cdp (Some e) None p items = items)
         \<and> registerDescendant cdp (Some e) None q (registerDescendant cdp (Some e) None p items)
             = registerDescendant cdp (Some e) None p items"
proof -
  let ?r = "registerDescendant cdp (Some e) None p items"
  have r: "?r = reindex items"
    using assms by (rule register_present)
  have "Some e \<in> set (map element items)"
    using assms by force
  then have "Some e \<in> set (map element ?r)"
    by (simp only: r map_element_reindex)
  then have "\<exists>d\<in>set ?r. element d = Some e"
    by auto
  then have "registerDescendant cdp (Some e) None q ?r = reindex ?r"
    by (rule register_present)
  also have "\<dots> = ?r"
    by (rule reindex_indexed) (simp add: r indexed_reindex)
  finally have twice: "registerDescendant cdp (Some e) None q ?r = ?r" .
  show ?thesis
    using twice
    by (simp add: r length_reindex map_element_reindex map_rest_reindex indexed_reindex
          reindex_indexed)
qed

theorem reregister_unpinned_witness:
  "recB \<in> set threeItems \<and> element recB = Some B \<and> indexed threeItems
   \<and> registerDescendant (documentOrder [A, B, C]) (Some B) None ''other'' threeItems = threeItems"
proof -
  have h: "\<exists>d\<in>set threeItems. element d = Some B"
    by (simp add: threeItems_def recA_def recB_def recC_def)
  have i: "indexed threeItems"
    by (simp add: indexed_def threeItems_def recA_def recB_def recC_def)
  show ?thesis
    using i reregister_unpinned [OF h, where cdp = "documentOrder [A, B, C]" and p = "''other''"]
    by (simp add: threeItems_def recB_def)
qed

text \<open>
  The claim as stated fails on a collection the registry itself produces: after
  registering \<open>A\<close> and \<open>B\<close> and unregistering \<open>A\<close>, registering \<open>B\<close> again rewrites the
  index of its record from 1 to 0.
\<close>

theorem reregister_unpinned_counterexample:
  "runOperations (documentOrder [A, B, C])
     [Register (Some A) None ''first'', Register (Some B) None ''second'', Unregister (Some A)]
    = [recB]
   \<and> element recB = Some B
   \<and> registerDescendant (documentOrder [A, B, C]) (Some B) None ''second'' [recB]
       = [\<lparr>element = Some B, index = 0, rest = ''second''\<rparr>]
   \<and> registerDescendant (documentOrder [A, B, C]) (Some B) None ''second'' [recB] \<noteq> [recB]"
  by (simp add: runOperations_def registerDescendant_def unregisterDescendant_def reindex_def
        findIndex_def newPrecedes_def documentOrder_def recB_def)

section \<open>Registering with an explicit index\<close>

text \<open>
  Claim C2, as the code has it. With an element and an explicit index,
  \<^verbatim>\<open>registerDescendant\<close> appends the new record and sorts the whole collection by index:
  the result holds the old records and the new one, nothing is replaced; it is ascending
  in the index field; records of equal index keep their order, the new one last among
  them. The result has no two records with the same element when the collection had
  none and no record held the new element.
\<close>

theorem register_pinned_appends_and_sorts:
  "mset (registerDescendant cdp (Some e) (Some ix) p items)
     = mset items + {#\<lparr>element = Some e, index = ix, rest = p\<rparr>#}
   \<and> sorted (map index (registerDescendant cdp (Some e) (Some ix) p items))
   \<and> (\<forall>k. filter (\<lambda>d. index d = k) (registerDescendant cdp (Some e) (Some ix) p items)
          = filter (\<lambda>d. index d = k) (items @ [\<lparr>element = Some e, index = ix, rest = p\<rparr>]))
   \<and> (distinct (map element items) \<and> (\<forall>d\<in>set items. element d \<noteq> Some e)
        \<longrightarrow> distinct (map element (registerDescendant cdp (Some e) (Some ix) p items)))"
proof -
  let ?new = "\<lparr>element = Some e, index = ix, rest = p\<rparr>"
  let ?r = "registerDescendant cdp (Some e) (Some ix) p items"
  have r: "?r = sort_key index (items @ [?new])"
    by (simp add: registerDescendant_def)
  have m: "mset ?r = mset items + {#?new#}"
    by (simp add: r)
  have s: "sorted (map index ?r)"
    by (simp only: r sorted_sort_key)
  have st: "filter (\<lambda>d. index d = k) ?r = filter (\<lambda>d. index d = k) (items @ [?new])" for k
    by (simp only: r sort_key_stable)
  have d: "distinct (map element ?r)"
    if "distinct (map element items) \<and> (\<forall>d\<in>set items. element d \<noteq> Some e)"
  proof -
    have "mset (map element ?r) = mset (map element (items @ [?new]))"
      using m by (metis mset_map mset_append mset.simps add_mset_add_single mset_sort r)
    moreover have "distinct (map element (items @ [?new]))"
      using that by auto
    ultimately show ?thesis
      by (metis mset_eq_imp_distinct_iff)
  qed
  from m s st d show ?thesis by blast
qed

text \<open>
  The claim as stated fails: registering \<open>A\<close> with index 0 and again with index 1 leaves
  two records holding \<open>A\<close>; the first is not replaced.
\<close>

theorem register_pinned_counterexample:
  "runOperations (documentOrder [A, B, C])
     [Register (Some A) (Some 0) ''first'', Register (Some A) (Some 1) ''again'']
   = [\<lparr>element = Some A, index = 0, rest = ''first''\<rparr>,
      \<lparr>element = Some A, index = 1, rest = ''again''\<rparr>]
   \<and> \<not> distinct (map element (runOperations (documentOrder [A, B, C])
     [Register (Some A) (Some 0) ''first'', Register (Some A) (Some 1) ''again'']))"
  by (simp add: runOperations_def registerDescendant_def)

theorem register_pinned_appends_and_sorts_witness:
  "distinct (map element [recA, recC])
   \<and> element recA \<noteq> Some B \<and> element recC \<noteq> Some B
   \<and> registerDescendant (documentOrder [A, B, C]) (Some B) (Some 2) ''second'' [recA, recC]
      = [recA, recC, \<lparr>element = Some B, index = 2, rest = ''second''\<rparr>]
   \<and> sorted (map index
        (registerDescendant (documentOrder [A, B, C]) (Some B) (Some 2) ''second'' [recA, recC]))
   \<and> distinct (map element
        (registerDescendant (documentOrder [A, B, C]) (Some B) (Some 2) ''second'' [recA, recC]))"
  using register_pinned_appends_and_sorts
          [where cdp = "documentOrder [A, B, C]" and e = B and ix = 2 and p = "''second''"
             and items = "[recA, recC]"]
  by (simp add: registerDescendant_def recA_def recC_def)

section \<open>Registering a new element without an explicit index\<close>

text \<open>
  Both outcomes of the \<^verbatim>\<open>findIndex\<close> call, and the empty collection, are one insertion:
  the new record goes behind the longest prefix of records it does not precede.
\<close>

lemma register_new_unpinned:
  assumes "\<forall>d\<in>set items. element d \<noteq> Some e"
  shows "\<exists>i. registerDescendant cdp (Some e) None p items =
           reindex (takeWhile (Not \<circ> newPrecedes cdp e) items
                    @ \<lparr>element = Some e, index = i, rest = p\<rparr>
                    # dropWhile (Not \<circ> newPrecedes cdp e) items)"
proof (cases "items = []")
  case True
  then have "registerDescendant cdp (Some e) None p items =
      reindex (takeWhile (Not \<circ> newPrecedes cdp e) items
               @ \<lparr>element = Some e, index = 0, rest = p\<rparr>
               # dropWhile (Not \<circ> newPrecedes cdp e) items)"
    by (simp add: registerDescendant_def)
  then show ?thesis ..
next
  case False
  let ?P = "newPrecedes cdp e"
  from assms have nf: "find (\<lambda>item. element item = Some e) items = None"
    by (auto simp: find_None_iff)
  show ?thesis
  proof (cases "\<exists>x\<in>set items. ?P x")
    case True
    then have ix: "findIndex ?P items = int (length (takeWhile (Not \<circ> ?P) items))"
      by (rule findIndex_some)
    have "take (length (takeWhile (Not \<circ> ?P) items)) items = takeWhile (Not \<circ> ?P) items"
      by (rule takeWhile_eq_take [symmetric])
    moreover have "drop (length (takeWhile (Not \<circ> ?P) items)) items = dropWhile (Not \<circ> ?P) items"
      by (rule dropWhile_eq_drop [symmetric])
    ultimately have "registerDescendant cdp (Some e) None p items =
        reindex (takeWhile (Not \<circ> ?P) items
                 @ \<lparr>element = Some e, index = findIndex ?P items, rest = p\<rparr>
                 # dropWhile (Not \<circ> ?P) items)"
      using False nf ix by (simp add: registerDescendant_def Let_def)
    then show ?thesis ..
  next
    case no: False
    then have ix: "findIndex ?P items = - 1"
      by (simp add: findIndex_none)
    from no have tw: "takeWhile (Not \<circ> ?P) items = items"
      and dw: "dropWhile (Not \<circ> ?P) items = []"
      by simp_all
    have "registerDescendant cdp (Some e) None p items =
        reindex (takeWhile (Not \<circ> ?P) items
                 @ \<lparr>element = Some e, index = findIndex ?P items, rest = p\<rparr>
                 # dropWhile (Not \<circ> ?P) items)"
      using False nf ix by (simp only: tw dw) (simp add: registerDescendant_def Let_def)
    then show ?thesis ..
  qed
qed

lemma map_pair_reindex:
  "map (\<lambda>d. (element d, rest d)) (reindex xs) = map (\<lambda>d. (element d, rest d)) xs"
proof -
  have "map (\<lambda>d. (element d, rest d)) ys = zip (map element ys) (map rest ys)"
    for ys :: "('a, 'b) descendant list"
    by (induction ys) simp_all
  then show ?thesis
    by (simp only: map_element_reindex map_rest_reindex)
qed

lemma inDocumentOrder_insert:
  assumes tot: "\<forall>a\<in>S. \<forall>b\<in>S. a \<noteq> b \<longrightarrow> cdp a b \<or> cdp b a"
    and tr: "\<forall>a\<in>S. \<forall>b\<in>S. \<forall>c\<in>S. cdp a b \<longrightarrow> cdp b c \<longrightarrow> cdp a c"
    and els: "set (map element items) \<subseteq> Some ` S"
    and eS: "e \<in> S"
    and fresh: "Some e \<notin> set (map element items)"
    and ord: "inDocumentOrder cdp items"
  shows "sorted_wrt (elementBefore cdp)
           (map element (takeWhile (Not \<circ> newPrecedes cdp e) items)
            @ Some e # map element (dropWhile (Not \<circ> newPrecedes cdp e) items))"
proof -
  let ?P = "newPrecedes cdp e"
  let ?tw = "takeWhile (Not \<circ> ?P) items"
  let ?dw = "dropWhile (Not \<circ> ?P) items"
  have split: "map element items = map element ?tw @ map element ?dw"
    by (metis map_append takeWhile_dropWhile_id)
  from ord have srt: "sorted_wrt (elementBefore cdp) (map element ?tw @ map element ?dw)"
    by (simp only: inDocumentOrder_def split [symmetric])
  have node: "\<exists>a\<in>S. element x = Some a \<and> a \<noteq> e" if "x \<in> set items" for x
  proof -
    from that els obtain a where "a \<in> S" "element x = Some a"
      by auto
    moreover have "a \<noteq> e"
      using that fresh \<open>element x = Some a\<close> by force
    ultimately show ?thesis by blast
  qed
  have front: "elementBefore cdp (element x) (Some e)" if "x \<in> set ?tw" for x
  proof -
    from that have "\<not> ?P x"
      by (auto dest: set_takeWhileD)
    moreover from that have "x \<in> set items"
      by (auto dest: set_takeWhileD)
    then obtain a where a: "a \<in> S" "element x = Some a" "a \<noteq> e"
      using node by blast
    ultimately have "\<not> cdp a e"
      by (simp add: newPrecedes_def)
    with tot a eS have "cdp e a"
      by blast
    then show ?thesis
      by (simp add: elementBefore_def a)
  qed
  have rear: "elementBefore cdp (Some e) (element y)" if "y \<in> set ?dw" for y
  proof -
    from that obtain z zs where dw: "?dw = z # zs"
      by (cases ?dw) auto
    then have "\<not> (Not \<circ> ?P) z"
      by (metis hd_dropWhile list.distinct(1) list.sel(1))
    then have Pz: "?P z" by simp
    have "z \<in> set items"
      by (metis dw list.set_intros(1) set_dropWhileD)
    then obtain c where c: "c \<in> S" "element z = Some c" "c \<noteq> e"
      using node by blast
    from Pz c have cz: "cdp c e"
      by (simp add: newPrecedes_def)
    show ?thesis
    proof (cases "y = z")
      case True
      then show ?thesis
        using cz c by (simp add: elementBefore_def)
    next
      case False
      with that dw have yzs: "y \<in> set zs" by simp
      from srt have "sorted_wrt (elementBefore cdp) (map element ?dw)"
        by (simp add: sorted_wrt_append)
      then have "elementBefore cdp (element z) (element y)"
        using yzs by (simp add: dw)
      moreover have "y \<in> set items"
        using that by (auto dest: set_dropWhileD)
      then obtain b where b: "b \<in> S" "element y = Some b" "b \<noteq> e"
        using node by blast
      ultimately have "cdp b c"
        using c by (simp add: elementBefore_def)
      with cz tr b c eS have "cdp b e"
        by blast
      then show ?thesis
        by (simp add: elementBefore_def b)
    qed
  qed
  from srt have "sorted_wrt (elementBefore cdp) (map element ?tw)"
    and "sorted_wrt (elementBefore cdp) (map element ?dw)"
    and cross: "\<forall>x\<in>set (map element ?tw). \<forall>y\<in>set (map element ?dw). elementBefore cdp x y"
    by (simp_all add: sorted_wrt_append)
  then show ?thesis
    using front rear by (auto simp: sorted_wrt_append)
qed

lemma runOperations_snoc:
  "runOperations cdp (ops @ [op]) = applyOperation cdp (runOperations cdp ops) op"
  by (simp add: runOperations_def)

lemma registerEach_snoc:
  "registerEach (eps @ [(e, p)]) = registerEach eps @ [Register (Some e) None p]"
  by (simp add: registerEach_def)

text \<open>
  Registering distinct elements one at a time keeps the collection in document order,
  whatever the order of the calls, when the comparator is total and transitive on them.
\<close>

lemma registerEach_converges:
  assumes tot: "\<forall>a\<in>S. \<forall>b\<in>S. a \<noteq> b \<longrightarrow> cdp a b \<or> cdp b a"
    and tr: "\<forall>a\<in>S. \<forall>b\<in>S. \<forall>c\<in>S. cdp a b \<longrightarrow> cdp b c \<longrightarrow> cdp a c"
  shows "fst ` set eps \<subseteq> S \<Longrightarrow> distinct (map fst eps) \<Longrightarrow>
         inDocumentOrder cdp (runOperations cdp (registerEach eps))
         \<and> mset (map (\<lambda>d. (element d, rest d)) (runOperations cdp (registerEach eps)))
             = mset (map (\<lambda>(e, p). (Some e, p)) eps)"
proof (induction eps rule: rev_induct)
  case Nil
  show ?case
    by (simp add: runOperations_def registerEach_def inDocumentOrder_def)
next
  case (snoc ep eps)
  obtain e p where ep: "ep = (e, p)" by (cases ep)
  let ?items = "runOperations cdp (registerEach eps)"
  let ?P = "newPrecedes cdp e"
  have sub: "fst ` set eps \<subseteq> S" and eS: "e \<in> S"
    using snoc.prems(1) by (simp_all add: ep)
  have dist: "distinct (map fst eps)" and enew: "e \<notin> fst ` set eps"
    using snoc.prems(2) by (simp_all add: ep)
  have "inDocumentOrder cdp ?items
        \<and> mset (map (\<lambda>d. (element d, rest d)) ?items) = mset (map (\<lambda>(e, p). (Some e, p)) eps)"
    using sub dist by (rule snoc.IH)
  then have ord: "inDocumentOrder cdp ?items"
    and ms: "mset (map (\<lambda>d. (element d, rest d)) ?items) = mset (map (\<lambda>(e, p). (Some e, p)) eps)"
    by simp_all
  have "set (map (\<lambda>d. (element d, rest d)) ?items) = set (map (\<lambda>(e, p). (Some e, p)) eps)"
    using ms by (rule mset_eq_setD)
  then have "fst ` set (map (\<lambda>d. (element d, rest d)) ?items)
             = fst ` set (map (\<lambda>(e, p). (Some e, p)) eps)"
    by simp
  then have elset: "set (map element ?items) = Some ` fst ` set eps"
    by (simp add: image_image case_prod_unfold)
  from enew have fresh: "Some e \<notin> set (map element ?items)"
    unfolding elset by blast
  then have fresh': "\<forall>d\<in>set ?items. element d \<noteq> Some e"
    by force
  have els: "set (map element ?items) \<subseteq> Some ` S"
    unfolding elset using sub by (rule image_mono)
  obtain i where r: "registerDescendant cdp (Some e) None p ?items =
      reindex (takeWhile (Not \<circ> ?P) ?items @ \<lparr>element = Some e, index = i, rest = p\<rparr>
               # dropWhile (Not \<circ> ?P) ?items)"
    using register_new_unpinned [OF fresh'] by blast
  have run: "runOperations cdp (registerEach (eps @ [ep])) = registerDescendant cdp (Some e) None p ?items"
    by (simp add: ep registerEach_snoc runOperations_snoc)
  have "inDocumentOrder cdp (runOperations cdp (registerEach (eps @ [ep])))"
    unfolding run r inDocumentOrder_def map_element_reindex
    using inDocumentOrder_insert [OF tot tr els eS fresh ord] by simp
  moreover have "mset (map (\<lambda>d. (element d, rest d)) (runOperations cdp (registerEach (eps @ [ep]))))
      = mset (map (\<lambda>(e, p). (Some e, p)) (eps @ [ep]))"
  proof -
    have "mset (takeWhile (Not \<circ> ?P) ?items) + mset (dropWhile (Not \<circ> ?P) ?items)
          = mset ?items"
      by (metis mset_append takeWhile_dropWhile_id)
    then have "mset (takeWhile (Not \<circ> ?P) ?items @ \<lparr>element = Some e, index = i, rest = p\<rparr>
               # dropWhile (Not \<circ> ?P) ?items)
          = add_mset \<lparr>element = Some e, index = i, rest = p\<rparr> (mset ?items)"
      by simp
    then have "image_mset (\<lambda>d. (element d, rest d))
        (mset (takeWhile (Not \<circ> ?P) ?items @ \<lparr>element = Some e, index = i, rest = p\<rparr>
               # dropWhile (Not \<circ> ?P) ?items))
        = add_mset (Some e, p) (image_mset (\<lambda>d. (element d, rest d)) (mset ?items))"
      by simp
    then have "mset (map (\<lambda>d. (element d, rest d))
        (takeWhile (Not \<circ> ?P) ?items @ \<lparr>element = Some e, index = i, rest = p\<rparr>
               # dropWhile (Not \<circ> ?P) ?items))
        = add_mset (Some e, p) (mset (map (\<lambda>d. (element d, rest d)) ?items))"
      by (simp only: mset_map)
    then show ?thesis
      unfolding run r map_pair_reindex ms by (simp add: ep)
  qed
  ultimately show ?case by simp
qed


lemma unpinnedRegister_registerEach: "\<forall>op\<in>set (registerEach eps). unpinnedRegister op"
  by (auto simp: registerEach_def)

lemma indexed_registerEach: "indexed (runOperations cdp (registerEach eps))"
  unfolding runOperations_def
  by (rule indexed_foldl_unpinned) (simp_all add: indexed_def unpinnedRegister_registerEach)

text \<open>
  Claim C3, as the code has it. For a new element that no record holds,
  \<^verbatim>\<open>registerDescendant\<close> without an explicit index splits the collection into a front,
  whose records the new element does not precede (a record without element counts as not
  preceded), and a rest that is empty or starts with a record the new element precedes;
  the result is front, new record, rest, re-indexed. Consequently, for a comparator that
  is total and transitive on the registered elements, registering distinct elements one
  at a time, in any order of the calls, yields exactly the registered elements and
  payloads, in document order, with \<^verbatim>\<open>collection[i].index === i\<close>: elements whose visual
  order is \<open>[C, A, B]\<close> end as \<open>[C, A, B]\<close> with indices \<open>[0, 1, 2]\<close>.
\<close>

theorem unpinned_register_inserts_in_document_order:
  "((\<forall>d\<in>set items. element d \<noteq> Some e) \<longrightarrow>
      (\<exists>xs ys. items = xs @ ys
         \<and> (\<forall>x\<in>set xs. \<not> newPrecedes cdp e x)
         \<and> (ys \<noteq> [] \<longrightarrow> newPrecedes cdp e (hd ys))
         \<and> map element (registerDescendant cdp (Some e) None p items)
             = map element xs @ Some e # map element ys
         \<and> map rest (registerDescendant cdp (Some e) None p items)
             = map rest xs @ p # map rest ys
         \<and> indexed (registerDescendant cdp (Some e) None p items)))
   \<and> ((\<forall>a\<in>fst ` set eps. \<forall>b\<in>fst ` set eps. a \<noteq> b \<longrightarrow> cdp a b \<or> cdp b a)
       \<and> (\<forall>a\<in>fst ` set eps. \<forall>b\<in>fst ` set eps. \<forall>c\<in>fst ` set eps.
             cdp a b \<longrightarrow> cdp b c \<longrightarrow> cdp a c)
       \<and> distinct (map fst eps)
       \<longrightarrow> inDocumentOrder cdp (runOperations cdp (registerEach eps))
           \<and> mset (map (\<lambda>d. (element d, rest d)) (runOperations cdp (registerEach eps)))
               = mset (map (\<lambda>(e, p). (Some e, p)) eps)
           \<and> indexed (runOperations cdp (registerEach eps)))"
proof (intro conjI impI)
  assume fresh: "\<forall>d\<in>set items. element d \<noteq> Some e"
  let ?P = "newPrecedes cdp e"
  let ?tw = "takeWhile (Not \<circ> ?P) items"
  let ?dw = "dropWhile (Not \<circ> ?P) items"
  let ?r = "registerDescendant cdp (Some e) None p items"
  obtain i where r: "?r = reindex (?tw @ \<lparr>element = Some e, index = i, rest = p\<rparr> # ?dw)"
    using register_new_unpinned [OF fresh] by blast
  have a: "items = ?tw @ ?dw"
    by simp
  have b: "\<forall>x\<in>set ?tw. \<not> ?P x"
  proof
    fix x assume "x \<in> set ?tw"
    then have "(Not \<circ> ?P) x" by (rule set_takeWhileD [THEN conjunct2])
    then show "\<not> ?P x" by simp
  qed
  have c: "?dw \<noteq> [] \<longrightarrow> ?P (hd ?dw)"
    using hd_dropWhile [of "Not \<circ> ?P" items] by simp
  have d: "map element ?r = map element ?tw @ Some e # map element ?dw"
    by (simp add: r map_element_reindex)
  have f: "map rest ?r = map rest ?tw @ p # map rest ?dw"
    by (simp add: r map_rest_reindex)
  have g: "indexed ?r"
    by (rule indexed_register_unpinned)
  show "\<exists>xs ys. items = xs @ ys
         \<and> (\<forall>x\<in>set xs. \<not> newPrecedes cdp e x)
         \<and> (ys \<noteq> [] \<longrightarrow> newPrecedes cdp e (hd ys))
         \<and> map element ?r = map element xs @ Some e # map element ys
         \<and> map rest ?r = map rest xs @ p # map rest ys
         \<and> indexed ?r"
    by (rule exI [of _ ?tw], rule exI [of _ ?dw]) (intro conjI a b c d f g)
next
  assume h: "(\<forall>a\<in>fst ` set eps. \<forall>b\<in>fst ` set eps. a \<noteq> b \<longrightarrow> cdp a b \<or> cdp b a)
       \<and> (\<forall>a\<in>fst ` set eps. \<forall>b\<in>fst ` set eps. \<forall>c\<in>fst ` set eps.
             cdp a b \<longrightarrow> cdp b c \<longrightarrow> cdp a c)
       \<and> distinct (map fst eps)"
  note tot = h [THEN conjunct1]
    and tr = h [THEN conjunct2, THEN conjunct1]
    and dist = h [THEN conjunct2, THEN conjunct2]
  have conv: "inDocumentOrder cdp (runOperations cdp (registerEach eps))
        \<and> mset (map (\<lambda>d. (element d, rest d)) (runOperations cdp (registerEach eps)))
            = mset (map (\<lambda>(e, p). (Some e, p)) eps)"
    using tot tr subset_refl dist by (rule registerEach_converges)
  show "inDocumentOrder cdp (runOperations cdp (registerEach eps))"
    using conv by (rule conjunct1)
  show "mset (map (\<lambda>d. (element d, rest d)) (runOperations cdp (registerEach eps)))
            = mset (map (\<lambda>(e, p). (Some e, p)) eps)"
    using conv by (rule conjunct2)
  show "indexed (runOperations cdp (registerEach eps))"
    by (rule indexed_registerEach)
qed

theorem unpinned_register_inserts_in_document_order_witness:
  "element \<lparr>element = Some C, index = 0, rest = ''third''\<rparr> \<noteq> Some A
   \<and> element \<lparr>element = Some B, index = 1, rest = ''second''\<rparr> \<noteq> Some A
   \<and> \<not> newPrecedes (documentOrder [C, A, B]) A \<lparr>element = Some C, index = 0, rest = ''third''\<rparr>
   \<and> newPrecedes (documentOrder [C, A, B]) A \<lparr>element = Some B, index = 1, rest = ''second''\<rparr>
   \<and> registerDescendant (documentOrder [C, A, B]) (Some A) None ''first''
        [\<lparr>element = Some C, index = 0, rest = ''third''\<rparr>,
         \<lparr>element = Some B, index = 1, rest = ''second''\<rparr>]
      = [\<lparr>element = Some C, index = 0, rest = ''third''\<rparr>,
         \<lparr>element = Some A, index = 1, rest = ''first''\<rparr>,
         \<lparr>element = Some B, index = 2, rest = ''second''\<rparr>]
   \<and> indexed (registerDescendant (documentOrder [C, A, B]) (Some A) None ''first''
        [\<lparr>element = Some C, index = 0, rest = ''third''\<rparr>,
         \<lparr>element = Some B, index = 1, rest = ''second''\<rparr>])
   \<and> distinct (map fst [(A, ''first''), (B, ''second''), (C, ''third'')])
   \<and> runOperations (documentOrder [C, A, B])
        (registerEach [(A, ''first''), (B, ''second''), (C, ''third'')])
      = [\<lparr>element = Some C, index = 0, rest = ''third''\<rparr>,
         \<lparr>element = Some A, index = 1, rest = ''first''\<rparr>,
         \<lparr>element = Some B, index = 2, rest = ''second''\<rparr>]
   \<and> inDocumentOrder (documentOrder [C, A, B])
        (runOperations (documentOrder [C, A, B])
          (registerEach [(A, ''first''), (B, ''second''), (C, ''third'')]))
   \<and> indexed (runOperations (documentOrder [C, A, B])
          (registerEach [(A, ''first''), (B, ''second''), (C, ''third'')]))"
proof -
  have h1: "\<forall>d\<in>set [\<lparr>element = Some C, index = 0, rest = ''third''\<rparr>,
                     \<lparr>element = Some B, index = 1, rest = ''second''\<rparr>]. element d \<noteq> Some A"
    by simp
  have h2: "(\<forall>a\<in>fst ` set [(A, ''first''), (B, ''second''), (C, ''third'')].
              \<forall>b\<in>fst ` set [(A, ''first''), (B, ''second''), (C, ''third'')].
                a \<noteq> b \<longrightarrow> documentOrder [C, A, B] a b \<or> documentOrder [C, A, B] b a)
       \<and> (\<forall>a\<in>fst ` set [(A, ''first''), (B, ''second''), (C, ''third'')].
              \<forall>b\<in>fst ` set [(A, ''first''), (B, ''second''), (C, ''third'')].
              \<forall>c\<in>fst ` set [(A, ''first''), (B, ''second''), (C, ''third'')].
             documentOrder [C, A, B] a b \<longrightarrow> documentOrder [C, A, B] b c
               \<longrightarrow> documentOrder [C, A, B] a c)
       \<and> distinct (map fst [(A, ''first''), (B, ''second''), (C, ''third'')])"
    by (simp add: documentOrder_def)
  have run: "runOperations (documentOrder [C, A, B])
        (registerEach [(A, ''first''), (B, ''second''), (C, ''third'')])
      = [\<lparr>element = Some C, index = 0, rest = ''third''\<rparr>,
         \<lparr>element = Some A, index = 1, rest = ''first''\<rparr>,
         \<lparr>element = Some B, index = 2, rest = ''second''\<rparr>]"
    by (simp add: runOperations_def registerEach_def registerDescendant_def reindex_def
          findIndex_def newPrecedes_def documentOrder_def)
  have reg: "registerDescendant (documentOrder [C, A, B]) (Some A) None ''first''
        [\<lparr>element = Some C, index = 0, rest = ''third''\<rparr>,
         \<lparr>element = Some B, index = 1, rest = ''second''\<rparr>]
      = [\<lparr>element = Some C, index = 0, rest = ''third''\<rparr>,
         \<lparr>element = Some A, index = 1, rest = ''first''\<rparr>,
         \<lparr>element = Some B, index = 2, rest = ''second''\<rparr>]"
    by (simp add: registerDescendant_def reindex_def findIndex_def newPrecedes_def
          documentOrder_def)
  have cmp: "\<not> newPrecedes (documentOrder [C, A, B]) A \<lparr>element = Some C, index = 0, rest = ''third''\<rparr>
     \<and> newPrecedes (documentOrder [C, A, B]) A \<lparr>element = Some B, index = 1, rest = ''second''\<rparr>"
    by (simp add: newPrecedes_def documentOrder_def)
  note inst = unpinned_register_inserts_in_document_order
         [where cdp = "documentOrder [C, A, B]" and e = A and p = "''first''"
            and items = "[\<lparr>element = Some C, index = 0, rest = ''third''\<rparr>,
                          \<lparr>element = Some B, index = 1, rest = ''second''\<rparr>]"
            and eps = "[(A, ''first''), (B, ''second''), (C, ''third'')]"]
  note ins = inst [THEN conjunct1, THEN mp, OF h1]
  have ixi: "indexed (registerDescendant (documentOrder [C, A, B]) (Some A) None ''first''
        [\<lparr>element = Some C, index = 0, rest = ''third''\<rparr>,
         \<lparr>element = Some B, index = 1, rest = ''second''\<rparr>])"
    using ins by (elim exE conjE)
  note conv = inst [THEN conjunct2, THEN mp, OF h2]
  note ord = conv [THEN conjunct1]
  note ixd = conv [THEN conjunct2, THEN conjunct2]
  have dist: "distinct (map fst [(A, ''first''), (B, ''second''), (C, ''third'')])"
    by simp
  have el1: "element \<lparr>element = Some C, index = 0, rest = ''third''\<rparr> \<noteq> Some A"
    by simp
  have el2: "element \<lparr>element = Some B, index = 1, rest = ''second''\<rparr> \<noteq> Some A"
    by simp
  show ?thesis
    by (intro conjI el1 el2 cmp [THEN conjunct1] cmp [THEN conjunct2] reg ixi dist run ord ixd)
qed

text \<open>
  The claim as stated fails in its last part: with visual order \<open>[C, A, B]\<close> the
  collection ends as \<open>[C, A, B]\<close>, not as \<open>[A, B, C]\<close>.
\<close>

theorem unpinned_register_converges_counterexample:
  "runOperations (documentOrder [C, A, B])
     (registerEach [(A, ''first''), (B, ''second''), (C, ''third'')])
   = [\<lparr>element = Some C, index = 0, rest = ''third''\<rparr>,
      \<lparr>element = Some A, index = 1, rest = ''first''\<rparr>,
      \<lparr>element = Some B, index = 2, rest = ''second''\<rparr>]
   \<and> map element (runOperations (documentOrder [C, A, B])
        (registerEach [(A, ''first''), (B, ''second''), (C, ''third'')]))
      \<noteq> [Some A, Some B, Some C]"
  by (simp add: runOperations_def registerEach_def registerDescendant_def reindex_def
        findIndex_def newPrecedes_def documentOrder_def)

section \<open>Keyboard navigation\<close>

lemma getLastOption_nonempty: "xs \<noteq> [] \<Longrightarrow> getLastOption xs = Some (last xs)"
  by (auto simp: getLastOption_def js_nth_def last_conv_nth nat_diff_distrib')

lemma getFirstOption_nonempty: "xs \<noteq> [] \<Longrightarrow> getFirstOption xs = Some (hd xs)"
  by (cases xs) (simp_all add: getFirstOption_def js_nth_def)

lemma findIndex_last:
  assumes "xs \<noteq> []" and "findIndex P xs = int (length xs) - 1"
  shows "P (last xs)" and "js_nth xs (findIndex P xs) = Some (last xs)"
proof -
  have ex: "\<exists>x\<in>set xs. P x"
  proof (rule ccontr)
    assume "\<not> (\<exists>x\<in>set xs. P x)"
    then have "findIndex P xs = - 1"
      by (simp add: findIndex_none)
    with assms show False by simp
  qed
  then have "findIndex P xs = int (length (takeWhile (Not \<circ> P) xs))"
    by (rule findIndex_some)
  with assms have len: "length (takeWhile (Not \<circ> P) xs) = length xs - 1"
    by simp
  then have "length (takeWhile (Not \<circ> P) xs) < length xs"
    using assms(1) by simp
  then have "\<not> (Not \<circ> P) (xs ! length (takeWhile (Not \<circ> P) xs))"
    by (rule nth_length_takeWhile)
  then show "P (last xs)"
    using assms(1) by (simp add: len last_conv_nth)
  show "js_nth xs (findIndex P xs) = Some (last xs)"
    using assms by (auto simp: js_nth_def last_conv_nth nat_diff_distrib')
qed

text \<open>
  The position found is the last one exactly when the last record satisfies the
  predicate and no record before it does.
\<close>

lemma findIndex_last_iff:
  assumes "xs \<noteq> []"
  shows "findIndex P xs = int (length xs) - 1 \<longleftrightarrow> P (last xs) \<and> (\<forall>x\<in>set (butlast xs). \<not> P x)"
proof
  assume h: "findIndex P xs = int (length xs) - 1"
  have ex: "\<exists>x\<in>set xs. P x"
  proof (rule ccontr)
    assume "\<not> (\<exists>x\<in>set xs. P x)"
    then have "findIndex P xs = - 1"
      by (simp add: findIndex_none)
    with h assms show False by simp
  qed
  then have "findIndex P xs = int (length (takeWhile (Not \<circ> P) xs))"
    by (rule findIndex_some)
  with h assms have len: "length (takeWhile (Not \<circ> P) xs) = length xs - 1"
    by simp
  have "takeWhile (Not \<circ> P) xs = take (length xs - 1) xs"
    using takeWhile_eq_take [of "Not \<circ> P" xs] len by simp
  then have "takeWhile (Not \<circ> P) xs = butlast xs"
    by (simp add: butlast_conv_take)
  then have "\<forall>x\<in>set (butlast xs). \<not> P x"
    by (metis comp_apply set_takeWhileD)
  with findIndex_last(1) [OF assms h] show "P (last xs) \<and> (\<forall>x\<in>set (butlast xs). \<not> P x)"
    by simp
next
  assume h: "P (last xs) \<and> (\<forall>x\<in>set (butlast xs). \<not> P x)"
  have xs: "xs = butlast xs @ [last xs]"
    using assms by simp
  have "takeWhile (Not \<circ> P) (butlast xs @ [last xs]) = butlast xs"
    using h by (simp add: takeWhile_tail)
  then have "length (takeWhile (Not \<circ> P) xs) = length xs - 1"
    using xs by (metis length_butlast)
  moreover have "\<exists>x\<in>set xs. P x"
    using h assms by (metis last_in_set)
  ultimately show "findIndex P xs = int (length xs) - 1"
    using assms by (simp add: findIndex_some of_nat_diff Suc_leI)
qed

text \<open>
  Claim C6. The selectable subset is not empty and the current index is at its last
  item: the position the handler finds for the current index (the first selectable
  record whose index field equals it) is the last one. Then \<^verbatim>\<open>ArrowDown\<close> under vertical
  orientation calls \<^verbatim>\<open>preventDefault\<close> and the callback, with the first selectable item
  when \<^verbatim>\<open>rotate\<close> is true and with the last item when it is false (the record itself for
  \<^verbatim>\<open>key = 'option'\<close>, its index for \<^verbatim>\<open>key = 'index'\<close>).
\<close>

theorem arrow_down_at_last:
  assumes "selectable descendants opts \<noteq> []"
    and "findIndex (\<lambda>d. Some (index d) = currentIndex opts) (selectable descendants opts)
           = int (length (selectable descendants opts)) - 1"
    and "orientation opts = Vertical"
    and "key event = ''ArrowDown''"
  shows "handleKeyDown descendants opts event =
           Inr (Selected
             (case key_opt opts of
                KeyOption \<Rightarrow>
                  Record (if rotate_opt opts then hd (selectable descendants opts)
                          else last (selectable descendants opts))
              | KeyIndex \<Rightarrow>
                  IndexOf (index (if rotate_opt opts then hd (selectable descendants opts)
                                  else last (selectable descendants opts)))))"
proof -
  let ?sel = "selectable descendants opts"
  let ?P = "\<lambda>d. Some (index d) = currentIndex opts"
  have cur: "currentIndex opts = Some (index (last ?sel))"
    using findIndex_last(1) [of ?sel ?P, OF assms(1,2)] by simp
  have at: "js_nth ?sel (findIndex ?P ?sel) = Some (last ?sel)"
    using assms(1,2) by (rule findIndex_last(2))
  have nxt: "getNextOption ?sel (index (last ?sel)) (findIndex ?P ?sel) (rotate_opt opts)
             = Inr (Some (if rotate_opt opts then hd ?sel else last ?sel))"
    using assms(1) at
    by (simp add: getNextOption_def getLastOption_nonempty getFirstOption_nonempty)
  have "handleKeyDown descendants opts event
        = invoke (key_opt opts) (getNextOption ?sel (index (last ?sel)) (findIndex ?P ?sel) (rotate_opt opts))"
    using assms(1,3,4) by (simp add: handleKeyDown_def navigationKeys_def Let_def cur)
  then show ?thesis
    by (cases "key_opt opts") (simp_all add: nxt)
qed


theorem arrow_down_at_last_witness:
  "selectable threeItems sampleOptions \<noteq> []
   \<and> findIndex (\<lambda>d. Some (index d) = currentIndex sampleOptions) (selectable threeItems sampleOptions)
       = int (length (selectable threeItems sampleOptions)) - 1
   \<and> orientation sampleOptions = Vertical
   \<and> key arrowDown = ''ArrowDown''
   \<and> handleKeyDown threeItems sampleOptions arrowDown = Inr (Selected (Record recA))
   \<and> handleKeyDown threeItems (sampleOptions\<lparr>rotate_opt := False\<rparr>) arrowDown
       = Inr (Selected (Record recC))
   \<and> handleKeyDown threeItems (sampleOptions\<lparr>rotate_opt := False, key_opt := KeyIndex\<rparr>) arrowDown
       = Inr (Selected (IndexOf 2))"
proof -
  note defs = selectable_def sampleOptions_def threeItems_def findIndex_def
    recA_def recB_def recC_def arrowDown_def
  have h1: "selectable threeItems sampleOptions \<noteq> []"
    by (simp add: defs)
  have h2: "findIndex (\<lambda>d. Some (index d) = currentIndex sampleOptions)
              (selectable threeItems sampleOptions)
            = int (length (selectable threeItems sampleOptions)) - 1"
    by (simp add: defs)
  have h3: "orientation sampleOptions = Vertical"
    by (simp add: defs)
  have h4: "key arrowDown = ''ArrowDown''"
    by (simp add: defs)
  have a: "handleKeyDown threeItems sampleOptions arrowDown = Inr (Selected (Record recA))"
    using arrow_down_at_last [OF h1 h2 h3 h4] by (simp add: defs)
  have b: "handleKeyDown threeItems (sampleOptions\<lparr>rotate_opt := False\<rparr>) arrowDown
       = Inr (Selected (Record recC))"
    using arrow_down_at_last
            [where descendants = threeItems and event = arrowDown
               and opts = "sampleOptions\<lparr>rotate_opt := False\<rparr>"]
    by (simp add: defs)
  have c: "handleKeyDown threeItems (sampleOptions\<lparr>rotate_opt := False, key_opt := KeyIndex\<rparr>)
             arrowDown = Inr (Selected (IndexOf 2))"
    using arrow_down_at_last
            [where descendants = threeItems and event = arrowDown
               and opts = "sampleOptions\<lparr>rotate_opt := False, key_opt := KeyIndex\<rparr>"]
    by (simp add: defs)
  show ?thesis
    by (intro conjI h1 h2 h3 h4 a b c)
qed

text \<open>
  Claim C8. With a non-empty selectable subset and horizontal or both orientation,
  \<^verbatim>\<open>ArrowLeft\<close> does what \<^verbatim>\<open>ArrowDown\<close> does under vertical orientation when \<^verbatim>\<open>rtl\<close> is
  true and what \<^verbatim>\<open>ArrowUp\<close> does when it is false; \<^verbatim>\<open>ArrowRight\<close> the other way round.
  \<^verbatim>\<open>ArrowDown\<close> is the call of the callback on \<^verbatim>\<open>getNextOption()\<close>, \<^verbatim>\<open>ArrowUp\<close> the one
  on \<^verbatim>\<open>getPreviousOption()\<close>.
\<close>

theorem left_right_mirrored_by_rtl:
  assumes "selectable descendants opts \<noteq> []"
    and "orientation opts = Horizontal \<or> orientation opts = Both"
  shows "handleKeyDown descendants opts (event\<lparr>key := ''ArrowLeft''\<rparr>)
           = handleKeyDown descendants (opts\<lparr>orientation := Vertical\<rparr>)
               (event\<lparr>key := if rtl opts then ''ArrowDown'' else ''ArrowUp''\<rparr>)
         \<and> handleKeyDown descendants opts (event\<lparr>key := ''ArrowRight''\<rparr>)
           = handleKeyDown descendants (opts\<lparr>orientation := Vertical\<rparr>)
               (event\<lparr>key := if rtl opts then ''ArrowUp'' else ''ArrowDown''\<rparr>)
         \<and> handleKeyDown descendants (opts\<lparr>orientation := Vertical\<rparr>) (event\<lparr>key := ''ArrowDown''\<rparr>)
           = invoke (key_opt opts)
               (getNextOption (selectable descendants opts)
                  (case currentIndex opts of None \<Rightarrow> - 1 | Some i \<Rightarrow> i)
                  (findIndex (\<lambda>d. Some (index d) = currentIndex opts) (selectable descendants opts))
                  (rotate_opt opts))
         \<and> handleKeyDown descendants (opts\<lparr>orientation := Vertical\<rparr>) (event\<lparr>key := ''ArrowUp''\<rparr>)
           = invoke (key_opt opts)
               (getPreviousOption (selectable descendants opts)
                  (case currentIndex opts of None \<Rightarrow> - 1 | Some i \<Rightarrow> i)
                  (findIndex (\<lambda>d. Some (index d) = currentIndex opts) (selectable descendants opts))
                  (rotate_opt opts))"
proof -
  have sel: "selectable descendants (opts\<lparr>orientation := Vertical\<rparr>) = selectable descendants opts"
    by (simp add: selectable_def)
  show ?thesis
    using assms
    by (intro conjI) (auto simp: handleKeyDown_def navigationKeys_def Let_def sel)
qed

theorem left_right_mirrored_by_rtl_witness:
  "selectable threeItems (sampleOptions\<lparr>currentIndex := Some 1, orientation := Horizontal\<rparr>) \<noteq> []
   \<and> orientation (sampleOptions\<lparr>currentIndex := Some 1, orientation := Horizontal\<rparr>) = Horizontal
   \<and> handleKeyDown threeItems
         (sampleOptions\<lparr>currentIndex := Some 1, orientation := Horizontal\<rparr>) arrowLeft
       = Inr (Selected (Record recA))
   \<and> handleKeyDown threeItems
         (sampleOptions\<lparr>currentIndex := Some 1, orientation := Horizontal\<rparr>) arrowRight
       = Inr (Selected (Record recC))
   \<and> handleKeyDown threeItems
         (sampleOptions\<lparr>currentIndex := Some 1, orientation := Horizontal, rtl := True\<rparr>) arrowLeft
       = Inr (Selected (Record recC))
   \<and> handleKeyDown threeItems
         (sampleOptions\<lparr>currentIndex := Some 1, orientation := Horizontal, rtl := True\<rparr>) arrowRight
       = Inr (Selected (Record recA))"
proof -
  note defs = selectable_def sampleOptions_def threeItems_def findIndex_def
    recA_def recB_def recC_def arrowLeft_def arrowRight_def
    getNextOption_def getPreviousOption_def getFirstOption_def getLastOption_def
    js_nth_def js_rem_def
  have h1: "selectable threeItems (sampleOptions\<lparr>currentIndex := Some 1, orientation := Horizontal\<rparr>)
            \<noteq> []"
    by (simp add: defs)
  have h2: "orientation (sampleOptions\<lparr>currentIndex := Some 1, orientation := Horizontal\<rparr>)
            = Horizontal"
    by (simp add: defs)
  have ltr: "handleKeyDown threeItems
         (sampleOptions\<lparr>currentIndex := Some 1, orientation := Horizontal\<rparr>) arrowLeft
       = Inr (Selected (Record recA))
     \<and> handleKeyDown threeItems
         (sampleOptions\<lparr>currentIndex := Some 1, orientation := Horizontal\<rparr>) arrowRight
       = Inr (Selected (Record recC))"
    using left_right_mirrored_by_rtl
            [where descendants = threeItems and event = arrowLeft
               and opts = "sampleOptions\<lparr>currentIndex := Some 1, orientation := Horizontal\<rparr>"]
    by (simp add: defs)
  have rtl: "handleKeyDown threeItems
         (sampleOptions\<lparr>currentIndex := Some 1, orientation := Horizontal, rtl := True\<rparr>) arrowLeft
       = Inr (Selected (Record recC))
     \<and> handleKeyDown threeItems
         (sampleOptions\<lparr>currentIndex := Some 1, orientation := Horizontal, rtl := True\<rparr>) arrowRight
       = Inr (Selected (Record recA))"
    using left_right_mirrored_by_rtl
            [where descendants = threeItems and event = arrowLeft
               and opts = "sampleOptions\<lparr>currentIndex := Some 1, orientation := Horizontal,
                                          rtl := True\<rparr>"]
    by (simp add: defs)
  show ?thesis
    by (intro conjI h1 h2 ltr [THEN conjunct1] ltr [THEN conjunct2]
          rtl [THEN conjunct1] rtl [THEN conjunct2])
qed

lemma js_rem_small: "0 \<le> a \<Longrightarrow> a < n \<Longrightarrow> js_rem a n = a"
proof -
  assume a: "0 \<le> a" "a < n"
  then have "\<bar>a\<bar> mod \<bar>n\<bar> = a"
    by simp
  then show ?thesis
    using a by (simp add: js_rem_def sgn_if)
qed

text \<open>
  The same for every selectable subset of two or more records and every current index
  that no selectable record has: the next key selects the first record, the previous key
  the record before the last one, whatever \<^verbatim>\<open>rotate\<close> is.
\<close>

lemma without_position_general:
  assumes len: "2 \<le> length (selectable descendants opts)"
    and nf: "\<forall>d\<in>set (selectable descendants opts). Some (index d) \<noteq> currentIndex opts"
    and cur: "currentIndex opts = Some c"
    and ori: "orientation opts = Vertical"
  shows "handleKeyDown descendants opts (event\<lparr>key := ''ArrowDown''\<rparr>)
           = invoke (key_opt opts) (Inr (Some (hd (selectable descendants opts))))"
    and "handleKeyDown descendants opts (event\<lparr>key := ''ArrowUp''\<rparr>)
           = invoke (key_opt opts)
               (Inr (Some (selectable descendants opts ! (length (selectable descendants opts) - 2))))"
proof -
  let ?sel = "selectable descendants opts"
  let ?n = "length ?sel"
  have ne: "?sel \<noteq> []"
    using len by auto
  have si: "findIndex (\<lambda>d. index d = c) ?sel = - 1"
    using nf cur by (simp add: findIndex_none)
  have "hd ?sel \<in> set ?sel" "last ?sel \<in> set ?sel"
    using ne by simp_all
  then have nb: "c \<noteq> index (last ?sel)" and nt: "c \<noteq> index (hd ?sel)"
    using nf cur by auto
  have nxt: "getNextOption ?sel c (- 1) (rotate_opt opts) = Inr (Some (hd ?sel))"
    using ne nb
    by (simp add: getNextOption_def getLastOption_nonempty js_rem_def js_nth_def hd_conv_nth)
  have "js_rem (int ?n - 2) (int ?n) = int ?n - 2"
    using len by (intro js_rem_small) simp_all
  moreover have "js_nth ?sel (int ?n - 2) = Some (?sel ! (?n - 2))"
    using len by (simp add: js_nth_def nat_diff_distrib')
  ultimately have prv: "getPreviousOption ?sel c (- 1) (rotate_opt opts) = Inr (Some (?sel ! (?n - 2)))"
    using ne nt by (simp add: getPreviousOption_def getFirstOption_nonempty)
  show "handleKeyDown descendants opts (event\<lparr>key := ''ArrowDown''\<rparr>)
           = invoke (key_opt opts) (Inr (Some (hd ?sel)))"
    using ne ori by (simp add: handleKeyDown_def navigationKeys_def Let_def si cur nxt)
  show "handleKeyDown descendants opts (event\<lparr>key := ''ArrowUp''\<rparr>)
           = invoke (key_opt opts) (Inr (Some (?sel ! (?n - 2))))"
    using ne ori by (simp add: handleKeyDown_def navigationKeys_def Let_def si cur prv)
qed

text \<open>
  With a \<^verbatim>\<open>null\<close> current index the handler compares \<open>-1\<close> with the index fields. A
  record registered with the explicit index \<open>-1\<close> then counts as current: at the last
  position with \<^verbatim>\<open>rotate\<close> false, \<^verbatim>\<open>getNextOption\<close> returns
  \<^verbatim>\<open>selectableDescendants[-1]\<close>, which is \<^verbatim>\<open>undefined\<close>.
\<close>

lemma next_without_position_sentinel_clash:
  "registerDescendant (documentOrder [A, B, C]) (Some A) (Some (- 1)) ''first'' []
     = [\<lparr>element = Some A, index = - 1, rest = ''first''\<rparr>]
   \<and> handleKeyDown [\<lparr>element = Some A, index = - 1, rest = ''first''\<rparr>]
        (sampleOptions\<lparr>currentIndex := None, rotate_opt := False, key_opt := KeyIndex\<rparr>) arrowDown
     = Inl TypeError
   \<and> handleKeyDown [\<lparr>element = Some A, index = - 1, rest = ''first''\<rparr>]
        (sampleOptions\<lparr>currentIndex := None, rotate_opt := False\<rparr>) arrowDown
     = Inr (Selected Undefined)"
  by (simp add: registerDescendant_def handleKeyDown_def navigationKeys_def selectable_def
        sampleOptions_def arrowDown_def findIndex_def getNextOption_def getPreviousOption_def
        getFirstOption_def getLastOption_def js_nth_def js_rem_def)

text \<open>
  Claim C7, on the code. No record of the sample collection has the current index
  (\<^verbatim>\<open>null\<close>, or 7), and \<^verbatim>\<open>rotate\<close> is true. \<^verbatim>\<open>ArrowDown\<close> selects the first record, as
  the claim says. \<^verbatim>\<open>ArrowUp\<close> selects the second of the three records, not the last:
  the position \<open>-1\<close> that \<^verbatim>\<open>findIndex\<close> returns goes into
  \<^verbatim>\<open>(selectableIndex - 1 + length) % length\<close>, which is \<open>length - 2\<close>.
\<close>

theorem previous_without_position_skips_last:
  "handleKeyDown threeItems (sampleOptions\<lparr>currentIndex := None\<rparr>) arrowDown
     = Inr (Selected (Record recA))
   \<and> handleKeyDown threeItems (sampleOptions\<lparr>currentIndex := None\<rparr>) arrowUp
     = Inr (Selected (Record recB))
   \<and> handleKeyDown threeItems (sampleOptions\<lparr>currentIndex := Some 7\<rparr>) arrowUp
     = Inr (Selected (Record recB))"
  by (simp add: handleKeyDown_def navigationKeys_def selectable_def sampleOptions_def
        arrowDown_def arrowUp_def threeItems_def recA_def recB_def recC_def
        findIndex_def getNextOption_def getPreviousOption_def getFirstOption_def
        getLastOption_def js_nth_def js_rem_def)


end
